theory Spec2Isabelle
  imports Main "HOL-Library.Word"
begin

unbundle bit_operations_syntax

text \<open>
  Two parts of the fizz TLS 1.3 library: the handshake transcript hash of
  \<^verbatim>\<open>fizz/protocol/HandshakeContext-inl.h\<close>, and the event driver declared in
  \<^verbatim>\<open>fizz/protocol/FizzBase.h\<close>.
\<close>

section \<open>Bytes and buffers\<close>

type_synonym byte = "8 word"
type_synonym bytes = "byte list"

text \<open>
  A \<^verbatim>\<open>folly::IOBuf\<close> holding a contiguous run of bytes is a byte list, a
  \<^verbatim>\<open>ByteRange\<close> over it is the same list. A C string literal is the list of its
  character codes.
\<close>

definition bytes_of :: "string \<Rightarrow> bytes" where
  "bytes_of s = map of_char s"

text \<open>
  \<^verbatim>\<open>auto out = folly::IOBuf::create(n); out->append(n);\<close> gives a buffer of
  length \<open>n\<close>. C++ leaves its contents unspecified; the model fills it with zeroes, and
  every path that returns the buffer overwrites all of it.
\<close>

definition IOBuf_create_append :: "nat \<Rightarrow> bytes" where
  "IOBuf_create_append n = replicate n 0"

section \<open>The hash policy\<close>

text \<open>
  \<^verbatim>\<open>HandshakeContextImpl<Hash>\<close> is a template over a hash policy. The policy and the
  digest engine behind it are not part of the two files verified here, so they are
  parameters of the model: the digest length \<^verbatim>\<open>Hash::HashLen\<close>, the engine
  \<^verbatim>\<open>Hash::HashEngine()\<close> as the state of a freshly initialised context together with
  its update and finalisation functions, the tag \<^verbatim>\<open>Hash::hmac\<close> computes, and
  \<^verbatim>\<open>KeyDerivationImpl<Hash>().expandLabel\<close>.
\<close>

record 'c Hash =
  HashLen :: nat
  HashEngine :: 'c
  engine_update :: "'c \<Rightarrow> bytes \<Rightarrow> 'c"
  engine_final :: "'c \<Rightarrow> bytes"
  hmac_tag :: "bytes \<Rightarrow> bytes \<Rightarrow> bytes"
  expandLabel :: "bytes \<Rightarrow> string \<Rightarrow> bytes \<Rightarrow> nat \<Rightarrow> bytes"

datatype error = DigestNotInitialised | OutSizeMismatch

text \<open>
  \<^verbatim>\<open>folly::ssl::OpenSSLHash::Digest\<close> owns an engine context or none: a
  default-constructed digest has none, \<^verbatim>\<open>hash_init\<close> creates one,
  \<^verbatim>\<open>hash_update\<close> feeds it, and \<^verbatim>\<open>hash_final\<close> writes the digest into the
  caller's range and gives the context up. Updating or finalising without a context
  fails, and so does finalising into a range whose size is not the size of the digest.
\<close>

type_synonym 'c Digest = "'c option"

definition hash_init :: "'c Hash \<Rightarrow> 'c Digest \<Rightarrow> 'c Digest" where
  "hash_init P d = Some (HashEngine P)"

definition hash_update :: "'c Hash \<Rightarrow> 'c Digest \<Rightarrow> bytes \<Rightarrow> error + 'c Digest" where
  "hash_update P d data =
     (case d of
        None \<Rightarrow> Inl DigestNotInitialised
      | Some c \<Rightarrow> Inr (Some (engine_update P c data)))"

definition hash_final :: "'c Hash \<Rightarrow> 'c Digest \<Rightarrow> bytes \<Rightarrow> error + (bytes \<times> 'c Digest)" where
  "hash_final P d out =
     (case d of
        None \<Rightarrow> Inl DigestNotInitialised
      | Some c \<Rightarrow>
          if length (engine_final P c) = length out
          then Inr (engine_final P c, None)
          else Inl OutSizeMismatch)"

text \<open>
  \<^verbatim>\<open>Hash::hmac(key, in, out)\<close> writes the tag into the caller's range, under the same
  size rule.
\<close>

definition Hash_hmac :: "'c Hash \<Rightarrow> bytes \<Rightarrow> bytes \<Rightarrow> bytes \<Rightarrow> error + bytes" where
  "Hash_hmac P key input out =
     (if length (hmac_tag P key input) = length out
      then Inr (hmac_tag P key input)
      else Inl OutSizeMismatch)"

text \<open>
  Hashing a byte string directly: one context, one update, one finalisation, with no
  \<^verbatim>\<open>HandshakeContextImpl\<close> in between.
\<close>

definition hash_direct :: "'c Hash \<Rightarrow> bytes \<Rightarrow> error + bytes" where
  "hash_direct P data =
     (case hash_update P (hash_init P None) data of
        Inl e \<Rightarrow> Inl e
      | Inr d \<Rightarrow>
          (case hash_final P d (IOBuf_create_append (HashLen P)) of
             Inl e \<Rightarrow> Inl e
           | Inr (out, d') \<Rightarrow> Inr out))"

section \<open>HandshakeContextImpl\<close>

record 'c HandshakeContextImpl =
  hashState :: "'c Digest"

text \<open>
  The constructor: \<^verbatim>\<open>hashState = Digest(); hashState.hash_init(Hash::HashEngine());\<close>
\<close>

definition new_HandshakeContextImpl :: "'c Hash \<Rightarrow> 'c HandshakeContextImpl" where
  "new_HandshakeContextImpl P = \<lparr>hashState = hash_init P None\<rparr>"

text \<open>\<^verbatim>\<open>appendToTranscript\<close>: \<^verbatim>\<open>hashState.hash_update(*data);\<close>\<close>

definition appendToTranscript ::
  "'c Hash \<Rightarrow> bytes \<Rightarrow> 'c HandshakeContextImpl \<Rightarrow> error + 'c HandshakeContextImpl" where
  "appendToTranscript P data this =
     (case hash_update P (hashState this) data of
        Inl e \<Rightarrow> Inl e
      | Inr d \<Rightarrow> Inr (this\<lparr>hashState := d\<rparr>))"

text \<open>
  \<^verbatim>\<open>getHandshakeContext\<close> is a const method: it copies \<^verbatim>\<open>hashState\<close>, allocates
  \<^verbatim>\<open>HashLen\<close> bytes and finalises the copy into them. The model returns what the
  call returns together with the object as the call leaves it.
\<close>

definition getHandshakeContext ::
  "'c Hash \<Rightarrow> 'c HandshakeContextImpl \<Rightarrow> (error + bytes) \<times> 'c HandshakeContextImpl" where
  "getHandshakeContext P this =
     (let copied = hashState this;
          out = IOBuf_create_append (HashLen P)
      in case hash_final P copied out of
           Inl e \<Rightarrow> (Inl e, this)
         | Inr (out', copied') \<Rightarrow> (Inr out', this))"

text \<open>
  \<^verbatim>\<open>getFinishedData\<close>: the handshake context first, then the finished key by
  \<^verbatim>\<open>expandLabel(baseKey, "finished", IOBuf::create(0), HashLen)\<close>, then the HMAC of
  the context under that key into a fresh buffer of \<^verbatim>\<open>HashLen\<close> bytes.
\<close>

definition getFinishedData ::
  "'c Hash \<Rightarrow> bytes \<Rightarrow> 'c HandshakeContextImpl \<Rightarrow> (error + bytes) \<times> 'c HandshakeContextImpl" where
  "getFinishedData P baseKey this =
     (case getHandshakeContext P this of
        (Inl e, this') \<Rightarrow> (Inl e, this')
      | (Inr context, this') \<Rightarrow>
          (let finishedKey = expandLabel P baseKey ''finished'' [] (HashLen P);
               data = IOBuf_create_append (HashLen P)
           in (Hash_hmac P finishedKey context data, this')))"

text \<open>A sequence of \<^verbatim>\<open>appendToTranscript\<close> calls, stopping at the first one that throws.\<close>

fun appendAll ::
  "'c Hash \<Rightarrow> bytes list \<Rightarrow> 'c HandshakeContextImpl \<Rightarrow> error + 'c HandshakeContextImpl" where
  "appendAll P [] this = Inr this"
| "appendAll P (x # xs) this =
     (case appendToTranscript P x this of
        Inl e \<Rightarrow> Inl e
      | Inr this' \<Rightarrow> appendAll P xs this')"

text \<open>
  What the model assumes of the engine. An engine is streaming when feeding it nothing
  changes nothing and feeding it two strings in turn is feeding it their concatenation.
  A policy is consistent when the engine's digests and the tags all have the length the
  policy announces.
\<close>

definition streaming :: "'c Hash \<Rightarrow> bool" where
  "streaming P =
     ((\<forall>c. engine_update P c [] = c) \<and>
      (\<forall>c a b. engine_update P (engine_update P c a) b = engine_update P c (a @ b)))"

definition consistent :: "'c Hash \<Rightarrow> bool" where
  "consistent P =
     ((\<forall>c. length (engine_final P c) = HashLen P) \<and>
      (\<forall>k m. length (hmac_tag P k m) = HashLen P))"

text \<open>
  The digest \<^verbatim>\<open>getHandshakeContext\<close> returns after the given byte strings have been
  appended, in order, to a freshly constructed context.
\<close>

definition digest_after :: "'c Hash \<Rightarrow> bytes list \<Rightarrow> error + bytes" where
  "digest_after P xs =
     (case appendAll P xs (new_HandshakeContextImpl P) of
        Inl e \<Rightarrow> Inl e
      | Inr this \<Rightarrow> fst (getHandshakeContext P this))"

text \<open>
  The Finished value in the words of the specification: the HMAC of the digest under the
  finished key, which is expanded from the base key with label \<^verbatim>\<open>finished\<close> and an
  empty context to the length of a digest.
\<close>

definition finished_tag_spec :: "'c Hash \<Rightarrow> bytes \<Rightarrow> bytes \<Rightarrow> bytes" where
  "finished_tag_spec P baseKey d =
     hmac_tag P (expandLabel P baseKey ''finished'' [] (HashLen P)) d"

text \<open>
  A client of one context: it appends and reads in any order. \<open>run\<close> collects what the
  two readers return; an append that throws ends the run with its error.
\<close>

datatype transcript_call = Append bytes | GetHandshakeContext | GetFinishedData bytes

fun run ::
  "'c Hash \<Rightarrow> transcript_call list \<Rightarrow> 'c HandshakeContextImpl \<Rightarrow>
     (error + bytes) list \<times> 'c HandshakeContextImpl" where
  "run P [] this = ([], this)"
| "run P (Append data # cs) this =
     (case appendToTranscript P data this of
        Inl e \<Rightarrow> ([Inl e], this)
      | Inr this' \<Rightarrow> run P cs this')"
| "run P (GetHandshakeContext # cs) this =
     (case getHandshakeContext P this of
        (r, this') \<Rightarrow> (case run P cs this' of (rs, this'') \<Rightarrow> (r # rs, this'')))"
| "run P (GetFinishedData baseKey # cs) this =
     (case getFinishedData P baseKey this of
        (r, this') \<Rightarrow> (case run P cs this' of (rs, this'') \<Rightarrow> (r # rs, this'')))"

section \<open>The SHA-256 instance of the hash policy\<close>

text \<open>
  The handshake context is instantiated with the SHA-256 policy of the TLS 1.3 cipher
  suites. The engine is external to the files verified here; it is described by its
  contract: a context stands for the bytes absorbed so far, and finalisation applies
  SHA-256 (FIPS 180-4) to them. 32-bit words are integers with the wrap-around written
  out.
\<close>

definition add32 :: "int \<Rightarrow> int \<Rightarrow> int" where
  "add32 a b = (a + b) mod 4294967296"

definition rotr :: "nat \<Rightarrow> int \<Rightarrow> int" where
  "rotr n x = x div 2 ^ n + (x mod 2 ^ n) * 2 ^ (32 - n)"

definition Ch :: "int \<Rightarrow> int \<Rightarrow> int \<Rightarrow> int" where
  "Ch x y z = (x AND y) XOR ((4294967295 - x) AND z)"

definition Maj :: "int \<Rightarrow> int \<Rightarrow> int \<Rightarrow> int" where
  "Maj x y z = (x AND y) XOR (x AND z) XOR (y AND z)"

definition Sigma0 :: "int \<Rightarrow> int" where
  "Sigma0 x = rotr 2 x XOR rotr 13 x XOR rotr 22 x"

definition Sigma1 :: "int \<Rightarrow> int" where
  "Sigma1 x = rotr 6 x XOR rotr 11 x XOR rotr 25 x"

definition sigma0 :: "int \<Rightarrow> int" where
  "sigma0 x = rotr 7 x XOR rotr 18 x XOR x div 2 ^ 3"

definition sigma1 :: "int \<Rightarrow> int" where
  "sigma1 x = rotr 17 x XOR rotr 19 x XOR x div 2 ^ 10"

definition K256 :: "int list" where
  "K256 = [
   0x428a2f98, 0x71374491, 0xb5c0fbcf, 0xe9b5dba5, 0x3956c25b, 0x59f111f1, 0x923f82a4, 0xab1c5ed5,
   0xd807aa98, 0x12835b01, 0x243185be, 0x550c7dc3, 0x72be5d74, 0x80deb1fe, 0x9bdc06a7, 0xc19bf174,
   0xe49b69c1, 0xefbe4786, 0x0fc19dc6, 0x240ca1cc, 0x2de92c6f, 0x4a7484aa, 0x5cb0a9dc, 0x76f988da,
   0x983e5152, 0xa831c66d, 0xb00327c8, 0xbf597fc7, 0xc6e00bf3, 0xd5a79147, 0x06ca6351, 0x14292967,
   0x27b70a85, 0x2e1b2138, 0x4d2c6dfc, 0x53380d13, 0x650a7354, 0x766a0abb, 0x81c2c92e, 0x92722c85,
   0xa2bfe8a1, 0xa81a664b, 0xc24b8b70, 0xc76c51a3, 0xd192e819, 0xd6990624, 0xf40e3585, 0x106aa070,
   0x19a4c116, 0x1e376c08, 0x2748774c, 0x34b0bcb5, 0x391c0cb3, 0x4ed8aa4a, 0x5b9cca4f, 0x682e6ff3,
   0x748f82ee, 0x78a5636f, 0x84c87814, 0x8cc70208, 0x90befffa, 0xa4506ceb, 0xbef9a3f7, 0xc67178f2]"

definition H256 :: "int list" where
  "H256 = [0x6a09e667, 0xbb67ae85, 0x3c6ef372, 0xa54ff53a,
           0x510e527f, 0x9b05688c, 0x1f83d9ab, 0x5be0cd19]"

text \<open>Big-endian words of a block, the message schedule (newest word first), one round.\<close>

fun be32 :: "int list \<Rightarrow> int list" where
  "be32 (a # b # c # d # r) = (((a * 256 + b) * 256 + c) * 256 + d) # be32 r"
| "be32 r = []"

fun schedule :: "nat \<Rightarrow> int list \<Rightarrow> int list" where
  "schedule 0 ws = ws"
| "schedule (Suc n) ws =
     schedule n
       (add32 (add32 (add32 (sigma1 (ws ! 1)) (ws ! 6)) (sigma0 (ws ! 14))) (ws ! 15) # ws)"

fun round256 :: "int \<times> int \<Rightarrow> int list \<Rightarrow> int list" where
  "round256 (k, w) [a, b, c, d, e, f, g, h] =
     (let t1 = add32 (add32 (add32 (add32 h (Sigma1 e)) (Ch e f g)) k) w;
          t2 = add32 (Sigma0 a) (Maj a b c)
      in [add32 t1 t2, a, b, c, add32 d t1, e, f, g])"
| "round256 kw s = s"

definition compress :: "int list \<Rightarrow> int list \<Rightarrow> int list" where
  "compress hs block =
     map2 add32 hs (fold round256 (zip K256 (rev (schedule 48 (rev (be32 block))))) hs)"

definition be_bytes4 :: "int \<Rightarrow> int list" where
  "be_bytes4 w = [w div 16777216, w div 65536 mod 256, w div 256 mod 256, w mod 256]"

definition be_bytes8 :: "int \<Rightarrow> int list" where
  "be_bytes8 w = be_bytes4 (w div 4294967296 mod 4294967296) @ be_bytes4 (w mod 4294967296)"

definition pad256 :: "int list \<Rightarrow> int list" where
  "pad256 m =
     m @ [0x80] @ replicate ((119 - length m mod 64) mod 64) 0 @ be_bytes8 (8 * int (length m))"

fun blocks :: "int list \<Rightarrow> int list list" where
  "blocks [] = []"
| "blocks (x # xs) = take 64 (x # xs) # blocks (drop 64 (x # xs))"

definition sha256 :: "bytes \<Rightarrow> bytes" where
  "sha256 m =
     map word_of_int
       (concat (map be_bytes4 (fold (\<lambda>b h. compress h b) (blocks (pad256 (map uint m))) H256)))"

text \<open>HMAC (RFC 2104) over SHA-256, whose block size is 64 bytes.\<close>

definition hmac_sha256 :: "bytes \<Rightarrow> bytes \<Rightarrow> bytes" where
  "hmac_sha256 key msg =
     (let k0 = (if 64 < length key then sha256 key else key);
          kb = k0 @ replicate (64 - length k0) 0
      in sha256 (map (\<lambda>b. b XOR 0x5c) kb @ sha256 (map (\<lambda>b. b XOR 0x36) kb @ msg)))"

text \<open>
  HKDF-Expand (RFC 5869) and the label encoding of TLS 1.3 (RFC 8446, section 7.1):
  the length as two bytes, the label prefixed with \<^verbatim>\<open>tls13 \<close> and the context,
  each behind its one-byte length.
\<close>

fun hkdf_blocks :: "bytes \<Rightarrow> bytes \<Rightarrow> nat \<Rightarrow> bytes list" where
  "hkdf_blocks prk info 0 = []"
| "hkdf_blocks prk info (Suc n) =
     (let ts = hkdf_blocks prk info n;
          prev = (if ts = [] then [] else last ts)
      in ts @ [hmac_sha256 prk (prev @ info @ [of_nat (Suc n)])])"

definition hkdf_expand :: "bytes \<Rightarrow> bytes \<Rightarrow> nat \<Rightarrow> bytes" where
  "hkdf_expand prk info len = take len (concat (hkdf_blocks prk info ((len + 31) div 32)))"

definition hkdf_label :: "nat \<Rightarrow> string \<Rightarrow> bytes \<Rightarrow> bytes" where
  "hkdf_label len label context =
     [of_nat (len div 256), of_nat len]
     @ [of_nat (length (''tls13 '' @ label))] @ bytes_of (''tls13 '' @ label)
     @ [of_nat (length context)] @ context"

definition expandLabel_sha256 :: "bytes \<Rightarrow> string \<Rightarrow> bytes \<Rightarrow> nat \<Rightarrow> bytes" where
  "expandLabel_sha256 secret label context len =
     hkdf_expand secret (hkdf_label len label context) len"

definition Sha256 :: "bytes Hash" where
  "Sha256 =
     \<lparr>HashLen = 32,
      HashEngine = [],
      engine_update = (\<lambda>c data. c @ data),
      engine_final = sha256,
      hmac_tag = hmac_sha256,
      expandLabel = expandLabel_sha256\<rparr>"

text \<open>The three handshake messages of the scenario.\<close>

definition ClientHello :: bytes where
  "ClientHello = bytes_of ''ClientHello''"

definition ServerHello :: bytes where
  "ServerHello = bytes_of ''ServerHello''"

definition Finished_msg :: bytes where
  "Finished_msg = bytes_of ''Finished-msg''"

section \<open>FizzBase\<close>

text \<open>
  \<^verbatim>\<open>FizzBase.h\<close> declares the class: its fields with their initial values and its
  methods. \<^verbatim>\<open>PendingEvent\<close> is the variant the header declares; a payload is the
  bytes the caller hands over.
\<close>

datatype PendingEvent =
    AppWrite bytes
  | EarlyAppWrite bytes
  | AppClose
  | WriteNewSessionTicket bytes

text \<open>
  A unit of work is what one call of the state machine consumes: the next buffered
  transport bytes or the next queued event.
\<close>

datatype unit_of_work = TransportData bytes | Event PendingEvent

text \<open>
  The fields of the header, without the trailing underscore: \<open>state\<close> and
  \<open>transportReadBuf\<close> are the caller-owned objects behind the two references (the
  read buffer is a queue of byte chunks), \<open>actionGuard\<close> tells whether the optional
  destructor guard is held. \<open>aggregate\<close> holds the actions of a step that is not yet
  complete. The remaining fields record what happened and steer nothing: the units
  handed to the state machine, the actions it produced, the actions dispatched to the
  visitor, the events failed by the error path, the inputs in the order they were
  accepted, how many of the buffered chunks have been announced by
  \<^verbatim>\<open>newTransportData\<close>, the chunks the transport has appended to the read buffer,
  and how often \<^verbatim>\<open>newTransportData\<close> has been called.
\<close>

record ('st, 'a) FizzBase =
  state :: 'st
  transportReadBuf :: "bytes list"
  pendingEvents :: "PendingEvent list"
  waitForData :: bool
  actionGuard :: bool
  inProcessPendingEvents :: bool
  inErrorState :: bool
  aggregate :: "'a list"
  machineCalls :: "unit_of_work list"
  produced :: "'a list"
  dispatched :: "'a list"
  failedEvents :: "PendingEvent list"
  accepted :: "unit_of_work list"
  announced :: nat
  arrived :: "bytes list"
  resumptions :: nat

text \<open>
  The constructor with the field initialisers of the header:
  \<^verbatim>\<open>waitForData_{true}\<close>, \<^verbatim>\<open>inProcessPendingEvents_{false}\<close>,
  \<^verbatim>\<open>inErrorState_{false}\<close>, an empty queue and no guard.
\<close>

definition new_FizzBase :: "'st \<Rightarrow> bytes list \<Rightarrow> ('st, 'a) FizzBase" where
  "new_FizzBase st buf =
     \<lparr>state = st, transportReadBuf = buf, pendingEvents = [], waitForData = True,
      actionGuard = False, inProcessPendingEvents = False, inErrorState = False,
      aggregate = [], machineCalls = [], produced = [], dispatched = [],
      failedEvents = [], accepted = [], announced = 0, arrived = [], resumptions = 0\<rparr>"

definition actionProcessing :: "('st, 'a) FizzBase \<Rightarrow> bool" where
  "actionProcessing s = actionGuard s"

text \<open>
  The calls a client of the class makes: the public methods of the header, and the
  transport appending a chunk to the read buffer it owns.
\<close>

datatype call =
    Call_writeNewSessionTicket bytes
  | Call_appWrite bytes
  | Call_earlyAppWrite bytes
  | Call_appClose
  | Call_waitForData
  | Call_newTransportData
  | Call_moveToErrorState
  | Transport_appends bytes

text \<open>
  The collaborators are parameters. The state machine maps the protocol state and a unit
  of work to the actions it produces and whether the unit completes a step, or fails.
  The visitor handles one action: it updates the protocol state and may call back into
  the class. The third parameter is the priority of the drain loop: given the queue and
  the read buffer when an event and transport bytes are both ready, it tells whether the
  event goes first.
\<close>

record ('st, 'a) Collaborators =
  process :: "'st \<Rightarrow> unit_of_work \<Rightarrow> ('a list \<times> bool) option"
  visit :: "'a \<Rightarrow> 'st \<Rightarrow> 'st \<times> call list"
  eventFirst :: "PendingEvent list \<Rightarrow> bytes list \<Rightarrow> bool"

text \<open>
  Control is explicit: a stack of frames, the innermost activation first. \<open>Calls\<close> is
  a caller (the program of the owner, or a visitor callback) with the calls it has yet
  to make, \<open>Drain\<close> is an activation of the drain loop at its loop head, and
  \<open>Dispatch\<close> is the loop handing the remaining actions of a completed step to the
  visitor.
\<close>

datatype 'a frame = Calls "call list" | Drain | Dispatch "'a list"

type_synonym ('st, 'a) config = "('st, 'a) FizzBase \<times> 'a frame list"

text \<open>
  Modelled from the spec: the body of \<^verbatim>\<open>FizzBase::moveToErrorState\<close>, which is in
  \<^verbatim>\<open>FizzBase-inl.h\<close> and missing here, as are all the bodies below.
  "deliverError(err): if not already in error state, sets inErrorState, fails every
  currently queued event via an error path, and blocks all future processing".
\<close>

definition moveToErrorState :: "('st, 'a) FizzBase \<Rightarrow> ('st, 'a) FizzBase" where
  "moveToErrorState s =
     (if inErrorState s then s
      else s\<lparr>inErrorState := True,
             failedEvents := failedEvents s @ pendingEvents s,
             pendingEvents := []\<rparr>)"

text \<open>
  Modelled from the spec: the entry of \<^verbatim>\<open>FizzBase::processPendingEvents\<close> (missing),
  the drain attempt every submit and every resume ends with. "The draining guard prevents
  recursive reentry: calls made from inside a handler callback only enqueue, they do not
  recurse into the loop".
\<close>

definition processPendingEvents :: "('st, 'a) config \<Rightarrow> ('st, 'a) config" where
  "processPendingEvents cfg =
     (case cfg of (s, k) \<Rightarrow>
        if inProcessPendingEvents s then (s, k)
        else (s\<lparr>inProcessPendingEvents := True\<rparr>, Drain # k))"

text \<open>
  Modelled from the spec: the common body of \<^verbatim>\<open>writeNewSessionTicket\<close>,
  \<^verbatim>\<open>appWrite\<close>, \<^verbatim>\<open>earlyAppWrite\<close> and \<^verbatim>\<open>appClose\<close> (missing). "Enqueue
  the corresponding Event; each triggers an attempt to drain the queue".
\<close>

definition submit :: "PendingEvent \<Rightarrow> ('st, 'a) config \<Rightarrow> ('st, 'a) config" where
  "submit e cfg =
     (case cfg of (s, k) \<Rightarrow>
        processPendingEvents
          (s\<lparr>pendingEvents := pendingEvents s @ [e],
             accepted := accepted s @ [Event e]\<rparr>, k))"

text \<open>
  Modelled from the spec: the body of \<^verbatim>\<open>FizzBase::newTransportData\<close> (missing).
  "resumeWithTransportData(): clears waitForData and triggers a drain attempt that may
  consume newly available bytes". The chunks in the buffer that no earlier call has
  announced are accepted now.
\<close>

definition newTransportData :: "('st, 'a) config \<Rightarrow> ('st, 'a) config" where
  "newTransportData cfg =
     (case cfg of (s, k) \<Rightarrow>
        processPendingEvents
          (s\<lparr>waitForData := False,
             accepted := accepted s @ map TransportData (drop (announced s) (transportReadBuf s)),
             announced := length (transportReadBuf s),
             resumptions := Suc (resumptions s)\<rparr>, k))"

text \<open>
  Modelled from the spec: a call of a public method; the body of
  \<^verbatim>\<open>FizzBase::waitForData\<close> (missing) is "pauseForData(): sets waitForData". The
  transport appends to the read buffer without the object taking part.
\<close>

fun invoke :: "call \<Rightarrow> ('st, 'a) config \<Rightarrow> ('st, 'a) config" where
  "invoke (Call_writeNewSessionTicket t) cfg = submit (WriteNewSessionTicket t) cfg"
| "invoke (Call_appWrite w) cfg = submit (AppWrite w) cfg"
| "invoke (Call_earlyAppWrite w) cfg = submit (EarlyAppWrite w) cfg"
| "invoke Call_appClose cfg = submit AppClose cfg"
| "invoke Call_waitForData (s, k) = (s\<lparr>waitForData := True\<rparr>, k)"
| "invoke Call_newTransportData cfg = newTransportData cfg"
| "invoke Call_moveToErrorState (s, k) = (moveToErrorState s, k)"
| "invoke (Transport_appends b) (s, k) =
     (s\<lparr>transportReadBuf := transportReadBuf s @ [b], arrived := arrived s @ [b]\<rparr>, k)"

text \<open>
  Modelled from the spec: the choice of the next unit in the loop of
  \<^verbatim>\<open>FizzBase::processPendingEvents\<close> (missing). "Take ownership of the next unit of
  work: either the next buffered transport bytes (if not suspended) or the next queued
  Event, preferring to fully drain queued Events ahead of newly arrived transport bytes
  within the same pass". The specification also leaves this priority open ("the exact
  priority between draining queued events versus consuming newly available transport
  bytes within a single pass is underspecified; pick and document one deterministic
  policy"), and the header does not fix it. So where an event and transport bytes are
  both ready, the choice is the parameter \<open>eventFirst\<close>; the preference the
  specification states is the priority that always answers \<open>True\<close>.
\<close>

definition nextUnit ::
  "('st, 'a) Collaborators \<Rightarrow> ('st, 'a) FizzBase \<Rightarrow> (unit_of_work \<times> ('st, 'a) FizzBase) option" where
  "nextUnit C s =
     (case (pendingEvents s, if waitForData s then [] else transportReadBuf s) of
        ([], []) \<Rightarrow> None
      | (e # es, []) \<Rightarrow> Some (Event e, s\<lparr>pendingEvents := es\<rparr>)
      | ([], b # bs) \<Rightarrow>
          Some (TransportData b, s\<lparr>transportReadBuf := bs, announced := announced s - 1\<rparr>)
      | (e # es, b # bs) \<Rightarrow>
          if eventFirst C (e # es) (b # bs)
          then Some (Event e, s\<lparr>pendingEvents := es\<rparr>)
          else Some (TransportData b,
                     s\<lparr>transportReadBuf := bs, announced := announced s - 1\<rparr>))"

text \<open>
  Modelled from the spec: the exit of the loop of \<^verbatim>\<open>FizzBase::processPendingEvents\<close>
  (missing). "Release the destruction guard once the queue is empty and no asynchronous
  continuation is outstanding."
\<close>

definition leaveDrain :: "('st, 'a) FizzBase \<Rightarrow> ('st, 'a) FizzBase" where
  "leaveDrain s =
     (let s' = s\<lparr>inProcessPendingEvents := False\<rparr>
      in if pendingEvents s' = [] \<and> aggregate s' = [] then s'\<lparr>actionGuard := False\<rparr> else s')"

text \<open>
  Modelled from the spec: one turn of the loop of \<^verbatim>\<open>FizzBase::processPendingEvents\<close>
  (missing). "While not in error state: take
  ownership of the next unit of work; acquire a destruction guard if none held; invoke
  the state machine with that unit; on success, append produced actions to an aggregate
  set and, if the unit completes a step, dispatch the aggregate to the handler in the
  order produced; on failure, transition to error state and stop."
\<close>

definition drainStep ::
  "('st, 'a) Collaborators \<Rightarrow> ('st, 'a) FizzBase \<Rightarrow> 'a frame list \<Rightarrow> ('st, 'a) config" where
  "drainStep C s k =
     (if inErrorState s then (leaveDrain s, k)
      else case nextUnit C s of
        None \<Rightarrow> (leaveDrain s, k)
      | Some (u, s1) \<Rightarrow>
          (let s2 = s1\<lparr>actionGuard := True, machineCalls := machineCalls s1 @ [u]\<rparr>
           in case process C (state s2) u of
                None \<Rightarrow> (leaveDrain (moveToErrorState s2), k)
              | Some (acts, completes) \<Rightarrow>
                  (let s3 = s2\<lparr>aggregate := aggregate s2 @ acts,
                                 produced := produced s2 @ acts\<rparr>
                   in if completes
                      then (s3\<lparr>aggregate := []\<rparr>, Dispatch (aggregate s3) # Drain # k)
                      else (s3, Drain # k))))"

text \<open>
  Modelled from the spec: how the pieces run together (\<^verbatim>\<open>FizzBase-inl.h\<close> is
  missing). "A handler invoked during drain calls back into submitAppWrite; reentrant
  calls never execute inline; they enqueue and are processed by the outer drain loop once
  it regains control." The innermost frame moves. A caller makes its next call or
  returns; the dispatcher hands the next action to the visitor, which runs as a caller
  on top of it; the loop takes its next turn. \<open>None\<close> when nothing is left to do.
\<close>

fun step :: "('st, 'a) Collaborators \<Rightarrow> ('st, 'a) config \<Rightarrow> ('st, 'a) config option" where
  "step C (s, []) = None"
| "step C (s, Calls [] # k) = Some (s, k)"
| "step C (s, Calls (c # cs) # k) = Some (invoke c (s, Calls cs # k))"
| "step C (s, Dispatch [] # k) = Some (s, k)"
| "step C (s, Dispatch (a # as) # k) =
     (case visit C a (state s) of
        (st', cs) \<Rightarrow>
          Some (s\<lparr>state := st', dispatched := dispatched s @ [a]\<rparr>, Calls cs # Dispatch as # k))"
| "step C (s, Drain # k) = Some (drainStep C s k)"

text \<open>The first \<open>n\<close> steps of a run; a run that has ended stays where it is.\<close>

fun exec :: "('st, 'a) Collaborators \<Rightarrow> nat \<Rightarrow> ('st, 'a) config \<Rightarrow> ('st, 'a) config" where
  "exec C 0 cfg = cfg"
| "exec C (Suc n) cfg = (case step C cfg of None \<Rightarrow> cfg | Some cfg' \<Rightarrow> exec C n cfg')"

text \<open>Reading the logs and the stack.\<close>

fun events_of :: "unit_of_work list \<Rightarrow> PendingEvent list" where
  "events_of [] = []"
| "events_of (Event e # us) = e # events_of us"
| "events_of (TransportData b # us) = events_of us"

fun chunks_of :: "unit_of_work list \<Rightarrow> bytes list" where
  "chunks_of [] = []"
| "chunks_of (Event e # us) = chunks_of us"
| "chunks_of (TransportData b # us) = b # chunks_of us"

fun submitted :: "call list \<Rightarrow> PendingEvent list" where
  "submitted [] = []"
| "submitted (Call_writeNewSessionTicket t # cs) = WriteNewSessionTicket t # submitted cs"
| "submitted (Call_appWrite w # cs) = AppWrite w # submitted cs"
| "submitted (Call_earlyAppWrite w # cs) = EarlyAppWrite w # submitted cs"
| "submitted (Call_appClose # cs) = AppClose # submitted cs"
| "submitted (c # cs) = submitted cs"

fun passes :: "'a frame list \<Rightarrow> nat" where
  "passes [] = 0"
| "passes (Drain # k) = Suc (passes k)"
| "passes (f # k) = passes k"


text \<open>
  The stacks a run from a fresh object passes through: the owner's program alone, or an
  activation of the drain loop on top of it, which is at its loop head, or is
  dispatching, or is dispatching with a visitor callback on top. The flag
  \<open>inProcessPendingEvents\<close> is set in the last three.
\<close>

definition shape :: "('st, 'a) config \<Rightarrow> bool" where
  "shape cfg =
     (case cfg of (s, k) \<Rightarrow>
        (\<not> inProcessPendingEvents s \<and> (k = [] \<or> (\<exists>p. k = [Calls p])))
        \<or> (inProcessPendingEvents s \<and>
             (\<exists>p. k = [Drain, Calls p]
                \<or> (\<exists>as. k = [Dispatch as, Drain, Calls p])
                \<or> (\<exists>cs as. k = [Calls cs, Dispatch as, Drain, Calls p]))))"

text \<open>
  Three relations the proofs carry along a run. \<open>frozen s s'\<close>: from \<open>s\<close> to \<open>s'\<close>
  the error state has held, the state machine has been handed nothing, and the queue has
  only grown, by the events accepted in between. \<open>ordered buf cfg\<close>: the events handed
  to the state machine, then the failed ones, then the queued ones are the accepted
  events in their order; events fail in the error state only; the chunks handed to the
  state machine followed by the buffered ones are the initial buffer followed by the
  arrivals; and the actions dispatched, then those being dispatched, then the aggregate
  are the actions produced. \<open>suspended buf s\<close>: as long as \<^verbatim>\<open>newTransportData\<close> has
  not been called, the object waits for data, no chunk has been handed to the state
  machine and the buffer holds its initial content followed by the arrivals.
\<close>

definition frozen :: "('st, 'a) FizzBase \<Rightarrow> ('st, 'a) FizzBase \<Rightarrow> bool" where
  "frozen s s' =
     (inErrorState s' \<and> machineCalls s' = machineCalls s \<and>
      (\<exists>es. pendingEvents s' = pendingEvents s @ es \<and>
            events_of (accepted s') = events_of (accepted s) @ es))"


definition suspended :: "bytes list \<Rightarrow> ('st, 'a) FizzBase \<Rightarrow> bool" where
  "suspended buf s =
     (resumptions s \<noteq> 0
      \<or> (waitForData s \<and> chunks_of (machineCalls s) = []
          \<and> transportReadBuf s = buf @ arrived s))"

text \<open>
  A state machine that answers every unit with one action, the unit itself, and
  completes the step, so that the dispatched actions name their triggers. Its visitor
  reacts to one action, the trigger, with the given calls, and to nothing else. Its
  priority is the preference the specification states: events first. \<open>preferring\<close>
  replaces the priority of given collaborators.
\<close>

definition echo :: "unit_of_work \<Rightarrow> call list \<Rightarrow> (unit, unit_of_work) Collaborators" where
  "echo trigger reaction =
     \<lparr>process = (\<lambda>st u. Some ([u], True)),
      visit = (\<lambda>a st. if a = trigger then (st, reaction) else (st, [])),
      eventFirst = (\<lambda>q b. True)\<rparr>"

definition preferring ::
  "(PendingEvent list \<Rightarrow> bytes list \<Rightarrow> bool) \<Rightarrow> ('st, 'a) Collaborators \<Rightarrow>
     ('st, 'a) Collaborators" where
  "preferring p C = C\<lparr>eventFirst := p\<rparr>"

section \<open>Properties of the transcript hash\<close>

lemma appendAll_Some:
  "appendAll P xs \<lparr>hashState = Some c\<rparr> =
     Inr \<lparr>hashState = Some (fold (\<lambda>x c. engine_update P c x) xs c)\<rparr>"
  by (induction xs arbitrary: c) (simp_all add: appendToTranscript_def hash_update_def)

lemma fold_update_concat:
  assumes "streaming P"
  shows "fold (\<lambda>x c. engine_update P c x) xs c = engine_update P c (concat xs)"
  using assms by (induction xs arbitrary: c) (simp_all add: streaming_def)

lemma appendAll_new:
  assumes "streaming P"
  shows "appendAll P xs (new_HandshakeContextImpl P) =
           Inr \<lparr>hashState = Some (engine_update P (HashEngine P) (concat xs))\<rparr>"
  by (simp add: new_HandshakeContextImpl_def hash_init_def appendAll_Some
      fold_update_concat [OF assms])

lemma getHandshakeContext_Some:
  "fst (getHandshakeContext P \<lparr>hashState = Some (engine_update P (HashEngine P) data)\<rparr>) =
     hash_direct P data"
  by (simp add: getHandshakeContext_def hash_direct_def hash_final_def hash_update_def
      hash_init_def Let_def)

subsection \<open>SHA-256: lengths and the digests of the scenario\<close>

lemma length8_cases:
  assumes "length s = 8"
  obtains a b c d e f g h where "s = [a, b, c, d, e, f, g, h]"
  using assms by (auto simp: length_Suc_conv eval_nat_numeral)

lemma length_round256: "length s = 8 \<Longrightarrow> length (round256 kw s) = 8"
  by (cases kw, erule length8_cases) (simp add: Let_def)

lemma length_fold_round256: "length s = 8 \<Longrightarrow> length (fold round256 kws s) = 8"
  by (induction kws arbitrary: s) (simp_all add: length_round256)

lemma length_compress: "length hs = 8 \<Longrightarrow> length (compress hs b) = 8"
  by (simp add: compress_def length_fold_round256)

lemma length_fold_compress:
  "length hs = 8 \<Longrightarrow> length (fold (\<lambda>b h. compress h b) bs hs) = 8"
  by (induction bs arbitrary: hs) (simp_all add: length_compress)

lemma length_concat_be_bytes4: "length (concat (map be_bytes4 ws)) = 4 * length ws"
  by (induction ws) (simp_all add: be_bytes4_def)

lemma length_sha256: "length (sha256 m) = 32"
  by (simp add: sha256_def length_concat_be_bytes4 length_fold_compress H256_def)

lemma length_hmac_sha256: "length (hmac_sha256 key msg) = 32"
  by (simp add: hmac_sha256_def Let_def length_sha256)

lemma streaming_Sha256: "streaming Sha256"
  by (simp add: streaming_def Sha256_def)

lemma consistent_Sha256: "consistent Sha256"
  by (simp add: consistent_def Sha256_def length_sha256 length_hmac_sha256)

text \<open>The test vector of FIPS 180-4 for the one-block message \<^verbatim>\<open>abc\<close>.\<close>

lemma pad_abc:
  "pad256 (map uint (bytes_of ''abc'')) =
     [97, 98, 99, 128, 0, 0, 0, 0, 0, 0, 0, 0, 0, 0, 0, 0, 0, 0, 0, 0, 0, 0, 0,
      0, 0, 0, 0, 0, 0, 0, 0, 0, 0, 0, 0, 0, 0, 0, 0, 0, 0, 0, 0, 0, 0, 0, 0, 0,
      0, 0, 0, 0, 0, 0, 0, 0, 0, 0, 0, 0, 0, 0, 0, 24]"
  by code_simp

lemma compress_abc:
  "compress H256
     [97, 98, 99, 128, 0, 0, 0, 0, 0, 0, 0, 0, 0, 0, 0, 0, 0, 0, 0, 0, 0, 0, 0,
      0, 0, 0, 0, 0, 0, 0, 0, 0, 0, 0, 0, 0, 0, 0, 0, 0, 0, 0, 0, 0, 0, 0, 0, 0,
      0, 0, 0, 0, 0, 0, 0, 0, 0, 0, 0, 0, 0, 0, 0, 24] =
     [0xba7816bf, 0x8f01cfea, 0x414140de, 0x5dae2223,
      0xb00361a3, 0x96177a9c, 0xb410ff61, 0xf20015ad]"
  by code_simp

lemma sha256_abc:
  "sha256 (bytes_of ''abc'') =
     [0xba, 0x78, 0x16, 0xbf, 0x8f, 0x01, 0xcf, 0xea, 0x41, 0x41, 0x40, 0xde, 0x5d, 0xae, 0x22, 0x23,
      0xb0, 0x03, 0x61, 0xa3, 0x96, 0x17, 0x7a, 0x9c, 0xb4, 0x10, 0xff, 0x61, 0xf2, 0x00, 0x15, 0xad]"
  by (simp only: sha256_def pad_abc) (simp add: compress_abc be_bytes4_def)

text \<open>The digests of the scenario.\<close>

lemma pad_CS:
  "pad256 (map uint (ClientHello @ ServerHello)) =
     [67, 108, 105, 101, 110, 116, 72, 101, 108, 108, 111, 83, 101, 114, 118,
      101, 114, 72, 101, 108, 108, 111, 128, 0, 0, 0, 0, 0, 0, 0, 0, 0, 0, 0, 0,
      0, 0, 0, 0, 0, 0, 0, 0, 0, 0, 0, 0, 0, 0, 0, 0, 0, 0, 0, 0, 0, 0, 0, 0, 0,
      0, 0, 0, 176]"
  by code_simp

lemma compress_CS:
  "compress H256
     [67, 108, 105, 101, 110, 116, 72, 101, 108, 108, 111, 83, 101, 114, 118,
      101, 114, 72, 101, 108, 108, 111, 128, 0, 0, 0, 0, 0, 0, 0, 0, 0, 0, 0, 0,
      0, 0, 0, 0, 0, 0, 0, 0, 0, 0, 0, 0, 0, 0, 0, 0, 0, 0, 0, 0, 0, 0, 0, 0, 0,
      0, 0, 0, 176] =
     [320142342, 281467317, 4013320439, 305764746, 2321916442, 3547810059,
      3281094794, 3356251815]"
  by code_simp

lemma sha256_CS:
  "sha256 (ClientHello @ ServerHello) =
     [19, 20, 252, 6, 16, 198, 217, 181, 239, 54, 104, 247, 18, 57, 153, 138,
      138, 101, 162, 26, 211, 119, 73, 11, 195, 145, 136, 138, 200, 12, 86, 167]"
  by (simp only: sha256_def pad_CS) (simp add: compress_CS be_bytes4_def)

lemma pad_CSF:
  "pad256 (map uint (ClientHello @ ServerHello @ Finished_msg)) =
     [67, 108, 105, 101, 110, 116, 72, 101, 108, 108, 111, 83, 101, 114, 118,
      101, 114, 72, 101, 108, 108, 111, 70, 105, 110, 105, 115, 104, 101, 100,
      45, 109, 115, 103, 128, 0, 0, 0, 0, 0, 0, 0, 0, 0, 0, 0, 0, 0, 0, 0, 0, 0,
      0, 0, 0, 0, 0, 0, 0, 0, 0, 0, 1, 16]"
  by code_simp

lemma compress_CSF:
  "compress H256
     [67, 108, 105, 101, 110, 116, 72, 101, 108, 108, 111, 83, 101, 114, 118,
      101, 114, 72, 101, 108, 108, 111, 70, 105, 110, 105, 115, 104, 101, 100,
      45, 109, 115, 103, 128, 0, 0, 0, 0, 0, 0, 0, 0, 0, 0, 0, 0, 0, 0, 0, 0, 0,
      0, 0, 0, 0, 0, 0, 0, 0, 0, 0, 1, 16] =
     [77329553, 365150872, 760487863, 2615630127, 3771336576, 560441625,
      3317937310, 2173682058]"
  by code_simp

lemma sha256_CSF:
  "sha256 (ClientHello @ ServerHello @ Finished_msg) =
     [4, 155, 244, 145, 21, 195, 194, 152, 45, 84, 31, 183, 155, 231, 89, 47,
      224, 202, 7, 128, 33, 103, 169, 25, 197, 195, 180, 158, 129, 143, 193, 138]"
  by (simp only: sha256_def pad_CSF) (simp add: compress_CSF be_bytes4_def)

lemma pad_SC:
  "pad256 (map uint (ServerHello @ ClientHello)) =
     [83, 101, 114, 118, 101, 114, 72, 101, 108, 108, 111, 67, 108, 105, 101,
      110, 116, 72, 101, 108, 108, 111, 128, 0, 0, 0, 0, 0, 0, 0, 0, 0, 0, 0, 0,
      0, 0, 0, 0, 0, 0, 0, 0, 0, 0, 0, 0, 0, 0, 0, 0, 0, 0, 0, 0, 0, 0, 0, 0, 0,
      0, 0, 0, 176]"
  by code_simp

lemma compress_SC:
  "compress H256
     [83, 101, 114, 118, 101, 114, 72, 101, 108, 108, 111, 67, 108, 105, 101,
      110, 116, 72, 101, 108, 108, 111, 128, 0, 0, 0, 0, 0, 0, 0, 0, 0, 0, 0, 0,
      0, 0, 0, 0, 0, 0, 0, 0, 0, 0, 0, 0, 0, 0, 0, 0, 0, 0, 0, 0, 0, 0, 0, 0, 0,
      0, 0, 0, 176] =
     [1495041348, 1617716968, 1286408386, 4091426828, 1477533923, 3021007262,
      718062810, 2502173309]"
  by code_simp

lemma sha256_SC:
  "sha256 (ServerHello @ ClientHello) =
     [89, 28, 133, 68, 96, 108, 102, 232, 76, 173, 8, 194, 243, 222, 56, 12, 88,
      17, 96, 227, 180, 16, 233, 158, 42, 204, 196, 218, 149, 36, 34, 125]"
  by (simp only: sha256_def pad_SC) (simp add: compress_SC be_bytes4_def)

subsection \<open>The handshake context\<close>

lemma digest_after_concat:
  assumes "streaming P"
  shows "digest_after P xs = hash_direct P (concat xs)"
  by (simp add: digest_after_def appendAll_new [OF assms] getHandshakeContext_Some)

lemma hash_direct_Sha256: "hash_direct Sha256 data = Inr (sha256 data)"
  by (simp add: hash_direct_def hash_update_def hash_init_def hash_final_def
      IOBuf_create_append_def Sha256_def length_sha256)

lemma appendAll_new_ex:
  "\<exists>c. appendAll P xs (new_HandshakeContextImpl P) = Inr \<lparr>hashState = Some c\<rparr>"
  by (simp add: new_HandshakeContextImpl_def hash_init_def appendAll_Some)

lemma getHandshakeContext_unchanged: "snd (getHandshakeContext P this) = this"
  by (simp add: getHandshakeContext_def Let_def split: sum.splits prod.splits)

lemma getFinishedData_unchanged: "snd (getFinishedData P baseKey this) = this"
  using getHandshakeContext_unchanged [of P this]
  by (auto simp: getFinishedData_def Let_def split: sum.splits prod.splits)

lemma getHandshakeContext_length:
  "fst (getHandshakeContext P this) = Inr d \<Longrightarrow> length d = HashLen P"
  by (auto simp: getHandshakeContext_def hash_final_def IOBuf_create_append_def Let_def
      split: option.splits if_splits)

lemma getFinishedData_length:
  "fst (getFinishedData P baseKey this) = Inr t \<Longrightarrow> length t = HashLen P"
  by (auto simp: getFinishedData_def Hash_hmac_def IOBuf_create_append_def Let_def
      split: sum.splits prod.splits if_splits)

lemma getHandshakeContext_consistent:
  "consistent P \<Longrightarrow>
     fst (getHandshakeContext P \<lparr>hashState = Some c\<rparr>) = Inr (engine_final P c)"
  by (simp add: getHandshakeContext_def hash_final_def IOBuf_create_append_def Let_def
      consistent_def)

lemma getFinishedData_eq:
  "fst (getFinishedData P baseKey this) =
     (case fst (getHandshakeContext P this) of
        Inl e \<Rightarrow> Inl e
      | Inr d \<Rightarrow>
          Hash_hmac P (expandLabel P baseKey ''finished'' [] (HashLen P)) d
            (IOBuf_create_append (HashLen P)))"
  by (simp add: getFinishedData_def Let_def split: sum.splits prod.splits)

lemma getFinishedData_consistent:
  "consistent P \<Longrightarrow>
     fst (getFinishedData P baseKey \<lparr>hashState = Some c\<rparr>) =
       Inr (finished_tag_spec P baseKey (engine_final P c))"
  by (simp add: getFinishedData_eq getHandshakeContext_consistent Hash_hmac_def
      finished_tag_spec_def IOBuf_create_append_def) (simp add: consistent_def)

lemma Sha256_fields:
  "HashLen Sha256 = 32" "hmac_tag Sha256 = hmac_sha256" "expandLabel Sha256 = expandLabel_sha256"
  by (simp_all add: Sha256_def)

lemma appendToTranscript_Some:
  "appendToTranscript P data \<lparr>hashState = Some c\<rparr> =
     Inr \<lparr>hashState = Some (engine_update P c data)\<rparr>"
  by (simp add: appendToTranscript_def hash_update_def)

lemma getHandshakeContext_Some_eq:
  "getHandshakeContext P \<lparr>hashState = Some c\<rparr> =
     (if length (engine_final P c) = HashLen P then Inr (engine_final P c)
      else Inl OutSizeMismatch, \<lparr>hashState = Some c\<rparr>)"
  by (simp add: getHandshakeContext_def hash_final_def IOBuf_create_append_def Let_def)

lemma hash_direct_eq:
  "hash_direct P data =
     (if length (engine_final P (engine_update P (HashEngine P) data)) = HashLen P
      then Inr (engine_final P (engine_update P (HashEngine P) data))
      else Inl OutSizeMismatch)"
  by (simp add: hash_direct_def hash_update_def hash_init_def hash_final_def
      IOBuf_create_append_def)

lemma scenario_run:
  assumes "streaming P"
  shows "fst (run P [Append a, Append b, GetHandshakeContext, Append c, GetHandshakeContext]
            (new_HandshakeContextImpl P)) =
         [hash_direct P (a @ b), hash_direct P (a @ b @ c)]"
proof -
  have u: "engine_update P (engine_update P x y) z = engine_update P x (y @ z)" for x y z
    using assms by (simp add: streaming_def)
  show ?thesis
    by (simp add: new_HandshakeContextImpl_def hash_init_def appendToTranscript_Some
        getHandshakeContext_Some_eq hash_direct_eq u)
qed

text \<open>
  Claim C1. Over a streaming engine, after any sequence of byte strings has been appended
  in order, \<^verbatim>\<open>getHandshakeContext\<close> returns what hashing their concatenation directly
  returns. In the scenario, the digest read after \<^verbatim>\<open>ClientHello\<close> and
  \<^verbatim>\<open>ServerHello\<close> is the hash of the two concatenated, the digest read after a further
  \<^verbatim>\<open>Finished-msg\<close> is the hash of the three concatenated, and under SHA-256 the two
  digests differ.
\<close>

theorem transcript_digest_is_hash_of_concatenation:
  assumes "streaming P"
  shows "digest_after P xs = hash_direct P (concat xs)
       \<and> fst (run P [Append ClientHello, Append ServerHello, GetHandshakeContext,
                     Append Finished_msg, GetHandshakeContext] (new_HandshakeContextImpl P)) =
           [hash_direct P (ClientHello @ ServerHello),
            hash_direct P (ClientHello @ ServerHello @ Finished_msg)]
       \<and> (\<exists>h1 h2.
             fst (run Sha256 [Append ClientHello, Append ServerHello, GetHandshakeContext,
                    Append Finished_msg, GetHandshakeContext] (new_HandshakeContextImpl Sha256)) =
               [Inr h1, Inr h2]
             \<and> h1 \<noteq> h2)"
proof -
  have "sha256 (ClientHello @ ServerHello) \<noteq>
      sha256 (ClientHello @ ServerHello @ Finished_msg)"
    by (simp only: sha256_CS sha256_CSF) simp
  then have "\<exists>h1 h2.
      [hash_direct Sha256 (ClientHello @ ServerHello),
       hash_direct Sha256 (ClientHello @ ServerHello @ Finished_msg)] = [Inr h1, Inr h2]
      \<and> h1 \<noteq> h2"
    by (simp add: hash_direct_Sha256)
  then have "\<exists>h1 h2.
      fst (run Sha256 [Append ClientHello, Append ServerHello, GetHandshakeContext,
             Append Finished_msg, GetHandshakeContext] (new_HandshakeContextImpl Sha256)) =
        [Inr h1, Inr h2]
      \<and> h1 \<noteq> h2"
    by (simp only: scenario_run [OF streaming_Sha256])
  then show ?thesis
    using digest_after_concat [OF assms, of xs] scenario_run [OF assms] by blast
qed

theorem transcript_digest_is_hash_of_concatenation_witness:
  "streaming Sha256
   \<and> digest_after Sha256 [ClientHello, ServerHello] =
       Inr [19, 20, 252, 6, 16, 198, 217, 181, 239, 54, 104, 247, 18, 57, 153, 138,
            138, 101, 162, 26, 211, 119, 73, 11, 195, 145, 136, 138, 200, 12, 86, 167]"
  using transcript_digest_is_hash_of_concatenation
          [OF streaming_Sha256, of "[ClientHello, ServerHello]"]
  by (simp add: streaming_Sha256 hash_direct_Sha256 sha256_CS)

text \<open>
  Claim C2. \<^verbatim>\<open>getFinishedData(baseKey)\<close> returns the HMAC, written into a buffer of
  \<^verbatim>\<open>HashLen\<close> bytes, of the digest \<^verbatim>\<open>getHandshakeContext\<close> returns at that point,
  under the key expanded from \<open>baseKey\<close> with label \<^verbatim>\<open>finished\<close>, an empty context
  and the digest length; a failure of the digest is passed on. Under a consistent policy
  and after any sequence of appends both calls succeed and the tag is the one of the
  specification.
\<close>

theorem finished_data_is_hmac_of_digest:
  "fst (getFinishedData P baseKey this) =
     (case fst (getHandshakeContext P this) of
        Inl e \<Rightarrow> Inl e
      | Inr d \<Rightarrow>
          Hash_hmac P (expandLabel P baseKey ''finished'' [] (HashLen P)) d
            (IOBuf_create_append (HashLen P)))
   \<and> (consistent P \<longrightarrow>
        (\<exists>this' d. appendAll P xs (new_HandshakeContextImpl P) = Inr this'
           \<and> fst (getHandshakeContext P this') = Inr d
           \<and> fst (getFinishedData P baseKey this') = Inr (finished_tag_spec P baseKey d)))"
proof -
  obtain c where c: "appendAll P xs (new_HandshakeContextImpl P) = Inr \<lparr>hashState = Some c\<rparr>"
    using appendAll_new_ex [of P xs] by auto
  have "consistent P \<Longrightarrow>
      fst (getHandshakeContext P \<lparr>hashState = Some c\<rparr>) = Inr (engine_final P c)
      \<and> fst (getFinishedData P baseKey \<lparr>hashState = Some c\<rparr>) =
          Inr (finished_tag_spec P baseKey (engine_final P c))"
    by (simp add: getHandshakeContext_consistent getFinishedData_consistent)
  then show ?thesis
    using c getFinishedData_eq [of P baseKey this] by blast
qed

theorem finished_data_is_hmac_of_digest_witness:
  "consistent Sha256
   \<and> (\<exists>this' d. appendAll Sha256 [ClientHello] (new_HandshakeContextImpl Sha256) = Inr this'
         \<and> fst (getHandshakeContext Sha256 this') = Inr d
         \<and> fst (getFinishedData Sha256 [1, 2, 3] this') =
             Inr (hmac_sha256 (expandLabel_sha256 [1, 2, 3] ''finished'' [] 32) d))"
proof -
  from finished_data_is_hmac_of_digest
         [of Sha256 "[1, 2, 3]" "new_HandshakeContextImpl Sha256" "[ClientHello]"]
  have "\<exists>this' d. appendAll Sha256 [ClientHello] (new_HandshakeContextImpl Sha256) = Inr this'
      \<and> fst (getHandshakeContext Sha256 this') = Inr d
      \<and> fst (getFinishedData Sha256 [1, 2, 3] this') = Inr (finished_tag_spec Sha256 [1, 2, 3] d)"
    using consistent_Sha256 by blast
  then show ?thesis
    unfolding finished_tag_spec_def Sha256_fields using consistent_Sha256 by blast
qed

text \<open>
  Claim C3. \<^verbatim>\<open>getHandshakeContext\<close> leaves the object as it found it: a second call
  returns what the first returned, and whatever calls follow return, and leave behind,
  what they would have without the earlier reads.
\<close>

theorem getHandshakeContext_does_not_mutate:
  "snd (getHandshakeContext P this) = this
   \<and> fst (getHandshakeContext P (snd (getHandshakeContext P this))) =
       fst (getHandshakeContext P this)
   \<and> run P (GetHandshakeContext # cs) this =
       (fst (getHandshakeContext P this) # fst (run P cs this), snd (run P cs this))
   \<and> run P (GetHandshakeContext # GetHandshakeContext # cs) this =
       (fst (getHandshakeContext P this) # fst (getHandshakeContext P this) # fst (run P cs this),
        snd (run P cs this))"
  using getHandshakeContext_unchanged [of P this]
  by (simp add: split_beta)

text \<open>
  Claim C5. \<^verbatim>\<open>getFinishedData\<close> leaves the object as it found it, so a second
  invocation with the same base key returns the same result; after any sequence of
  appends, two invocations in a row return one and the same tag.
\<close>

theorem getFinishedData_is_deterministic:
  "snd (getFinishedData P baseKey this) = this
   \<and> fst (getFinishedData P baseKey (snd (getFinishedData P baseKey this))) =
       fst (getFinishedData P baseKey this)
   \<and> (\<exists>tag this'.
         run P (map Append xs @ [GetFinishedData baseKey, GetFinishedData baseKey])
           (new_HandshakeContextImpl P) = ([tag, tag], this'))"
proof -
  have r: "run P (map Append xs @ cs) \<lparr>hashState = Some c\<rparr> =
      run P cs \<lparr>hashState = Some (fold (\<lambda>x c. engine_update P c x) xs c)\<rparr>" for cs c
    by (induction xs arbitrary: c) (simp_all add: appendToTranscript_Some)
  show ?thesis
    using getFinishedData_unchanged [of P baseKey]
    by (simp add: r new_HandshakeContextImpl_def hash_init_def split_beta)
qed

text \<open>
  Claim C10. Whatever \<^verbatim>\<open>getHandshakeContext\<close> and \<^verbatim>\<open>getFinishedData\<close> return has
  exactly \<^verbatim>\<open>HashLen\<close> bytes, and under a consistent policy both do return, after any
  sequence of appends.
\<close>

theorem digest_and_tag_have_HashLen_bytes:
  "(\<forall>d. fst (getHandshakeContext P this) = Inr d \<longrightarrow> length d = HashLen P)
   \<and> (\<forall>t. fst (getFinishedData P baseKey this) = Inr t \<longrightarrow> length t = HashLen P)
   \<and> (consistent P \<longrightarrow>
        (\<exists>this' d t. appendAll P xs (new_HandshakeContextImpl P) = Inr this'
           \<and> fst (getHandshakeContext P this') = Inr d \<and> length d = HashLen P
           \<and> fst (getFinishedData P baseKey this') = Inr t \<and> length t = HashLen P))"
proof -
  obtain c where c: "appendAll P xs (new_HandshakeContextImpl P) = Inr \<lparr>hashState = Some c\<rparr>"
    using appendAll_new_ex [of P xs] by auto
  have "consistent P \<Longrightarrow> length (engine_final P c) = HashLen P"
    and "consistent P \<Longrightarrow> length (finished_tag_spec P baseKey (engine_final P c)) = HashLen P"
    by (simp_all add: consistent_def finished_tag_spec_def)
  then show ?thesis
    using c getHandshakeContext_length [of P this] getFinishedData_length [of P baseKey this]
    by (simp add: getHandshakeContext_consistent getFinishedData_consistent)
qed

theorem digest_and_tag_have_HashLen_bytes_witness:
  "consistent Sha256
   \<and> (\<exists>this' d t. appendAll Sha256 [ClientHello, ServerHello] (new_HandshakeContextImpl Sha256) = Inr this'
         \<and> fst (getHandshakeContext Sha256 this') = Inr d \<and> length d = 32
         \<and> fst (getFinishedData Sha256 [7] this') = Inr t \<and> length t = 32)"
proof -
  from digest_and_tag_have_HashLen_bytes
         [of Sha256 "new_HandshakeContextImpl Sha256" "[7]" "[ClientHello, ServerHello]"]
  have "\<exists>this' d t.
      appendAll Sha256 [ClientHello, ServerHello] (new_HandshakeContextImpl Sha256) = Inr this'
      \<and> fst (getHandshakeContext Sha256 this') = Inr d \<and> length d = HashLen Sha256
      \<and> fst (getFinishedData Sha256 [7] this') = Inr t \<and> length t = HashLen Sha256"
    using consistent_Sha256 by blast
  then show ?thesis
    unfolding Sha256_fields using consistent_Sha256 by blast
qed

text \<open>
  Claim C4 as stated fails: two distinct non-empty sequences with the same bytes in a
  different grouping leave the same digest.
\<close>

theorem regrouping_keeps_the_digest:
  "[bytes_of ''Client'', bytes_of ''HelloServerHello''] \<noteq> [ClientHello, ServerHello]
   \<and> concat [bytes_of ''Client'', bytes_of ''HelloServerHello''] = concat [ClientHello, ServerHello]
   \<and> digest_after Sha256 [bytes_of ''Client'', bytes_of ''HelloServerHello''] =
       digest_after Sha256 [ClientHello, ServerHello]"
  by (simp add: digest_after_concat [OF streaming_Sha256])
     (simp add: ClientHello_def ServerHello_def bytes_of_def)

text \<open>
  Claim C4, amended. Over a streaming engine the digest after a sequence of appends
  depends on the concatenation of the payloads only: two sequences give the same digest
  exactly when hashing their concatenations directly gives the same result, so a
  regrouping never changes the digest, and a reordering changes it when the hash
  separates the two concatenations, as SHA-256 does for \<^verbatim>\<open>ClientHello\<close> and
  \<^verbatim>\<open>ServerHello\<close> swapped.
\<close>

theorem digest_depends_on_the_concatenation_only:
  assumes "streaming P"
  shows "(digest_after P xs = digest_after P ys) =
           (hash_direct P (concat xs) = hash_direct P (concat ys))
       \<and> (concat xs = concat ys \<longrightarrow> digest_after P xs = digest_after P ys)
       \<and> digest_after Sha256 [ClientHello, ServerHello] \<noteq>
           digest_after Sha256 [ServerHello, ClientHello]"
proof -
  have "sha256 (ClientHello @ ServerHello) \<noteq> sha256 (ServerHello @ ClientHello)"
    by (simp only: sha256_CS sha256_SC) simp
  then show ?thesis
    by (simp add: digest_after_concat [OF assms] digest_after_concat [OF streaming_Sha256]
        hash_direct_Sha256)
qed

theorem digest_depends_on_the_concatenation_only_witness:
  "streaming Sha256
   \<and> concat [bytes_of ''Client'', bytes_of ''HelloServerHello''] = concat [ClientHello, ServerHello]
   \<and> digest_after Sha256 [bytes_of ''Client'', bytes_of ''HelloServerHello''] =
       digest_after Sha256 [ClientHello, ServerHello]"
  using digest_depends_on_the_concatenation_only
          [OF streaming_Sha256, of "[bytes_of ''Client'', bytes_of ''HelloServerHello'']"
             "[ClientHello, ServerHello]"]
  by (simp add: streaming_Sha256 ClientHello_def ServerHello_def bytes_of_def)

section \<open>Properties of FizzBase\<close>

subsection \<open>The error state\<close>

lemma events_of_append: "events_of (us @ vs) = events_of us @ events_of vs"
  by (induction us rule: events_of.induct) simp_all

lemma chunks_of_append: "chunks_of (us @ vs) = chunks_of us @ chunks_of vs"
  by (induction us rule: chunks_of.induct) simp_all

lemma events_of_map_TransportData: "events_of (map TransportData bs) = []"
  by (induction bs) simp_all

lemmas fizz_defs =
  submit_def newTransportData_def processPendingEvents_def moveToErrorState_def
  drainStep_def leaveDrain_def nextUnit_def

lemma frozen_refl: "inErrorState s \<Longrightarrow> frozen s s"
  by (simp add: frozen_def)

lemma frozen_trans: "frozen s s' \<Longrightarrow> frozen s' s'' \<Longrightarrow> frozen s s''"
  by (auto simp: frozen_def)

lemma frozen_invoke:
  "inErrorState s \<Longrightarrow> invoke c (s, k) = (s', k') \<Longrightarrow> frozen s s'"
  by (cases c)
     (auto simp: frozen_def fizz_defs events_of_append events_of_map_TransportData
       split: if_splits)

lemma frozen_step:
  assumes "inErrorState s" "step C (s, k) = Some (s', k')"
  shows "frozen s s'"
proof (cases k)
  case Nil
  with assms show ?thesis by simp
next
  case (Cons f k0)
  show ?thesis
  proof (cases f)
    case (Calls cs)
    with Cons assms show ?thesis
      by (cases cs) (auto simp: frozen_refl frozen_invoke)
  next
    case Drain
    with Cons assms show ?thesis
      by (auto simp: frozen_def drainStep_def leaveDrain_def Let_def)
  next
    case (Dispatch as)
    with Cons assms show ?thesis
      by (cases as) (auto simp: frozen_def split: prod.splits)
  qed
qed

lemma frozen_exec:
  "inErrorState s \<Longrightarrow> frozen s (fst (exec C n (s, k)))"
proof (induction n arbitrary: s k)
  case 0
  then show ?case by (simp add: frozen_refl)
next
  case (Suc n)
  show ?case
  proof (cases "step C (s, k)")
    case None
    with Suc.prems show ?thesis by (simp add: frozen_refl)
  next
    case (Some cfg)
    obtain s' k' where cfg: "cfg = (s', k')" by (cases cfg)
    have f: "frozen s s'" using frozen_step Suc.prems Some cfg by blast
    then have "inErrorState s'" by (simp add: frozen_def)
    then have "frozen s' (fst (exec C n (s', k')))" by (rule Suc.IH)
    with f show ?thesis using Some cfg by (auto intro: frozen_trans)
  qed
qed

lemma exec_ended: "exec C n (s, []) = (s, [])"
  by (induction n) simp_all

lemma step_None: "step C (s, k) = None \<Longrightarrow> k = []"
  by (cases "(C, (s, k))" rule: step.cases) (auto split: prod.splits)

lemma exec_add: "exec C (m + n) cfg = exec C n (exec C m cfg)"
proof (induction m arbitrary: cfg)
  case 0
  then show ?case by simp
next
  case (Suc m)
  show ?case
  proof (cases "step C cfg")
    case None
    then have "snd cfg = []"
      using step_None [of C "fst cfg" "snd cfg"] by simp
    then have "cfg = (fst cfg, [])"
      by (cases cfg) simp
    then show ?thesis
      using exec_ended [of C _ "fst cfg"] by metis
  next
    case (Some cfg')
    then show ?thesis using Suc.IH by simp
  qed
qed

lemma error_call_returns:
  assumes "inErrorState s" "\<not> inProcessPendingEvents s"
  shows "\<exists>s' m. m \<le> 2 \<and> exec C m (s, [Calls (c # cs)]) = (s', [Calls cs])
           \<and> inErrorState s' \<and> \<not> inProcessPendingEvents s'
           \<and> machineCalls s' = machineCalls s
           \<and> pendingEvents s' = pendingEvents s @ submitted [c]"
proof -
  let ?Q = "\<lambda>m s'. exec C m (s, [Calls (c # cs)]) = (s', [Calls cs])
           \<and> inErrorState s' \<and> \<not> inProcessPendingEvents s'
           \<and> machineCalls s' = machineCalls s
           \<and> pendingEvents s' = pendingEvents s @ submitted [c]"
  have "(\<exists>s'. ?Q (Suc 0) s') \<or> (\<exists>s'. ?Q (Suc (Suc 0)) s')"
    using assms by (cases c) (simp_all add: fizz_defs Let_def)
  then obtain s' m where "m \<le> 2" "?Q m s'"
    by (metis One_nat_def Suc_1 one_le_numeral order_refl)
  then show ?thesis by blast
qed

lemma error_run_returns:
  assumes "inErrorState s" "\<not> inProcessPendingEvents s"
  shows "\<exists>s'. exec C (2 * length cs + 1) (s, [Calls cs]) = (s', [])
           \<and> inErrorState s' \<and> machineCalls s' = machineCalls s
           \<and> pendingEvents s' = pendingEvents s @ submitted cs"
  using assms
proof (induction cs arbitrary: s)
  case Nil
  then show ?case by simp
next
  case (Cons c cs)
  from error_call_returns [OF Cons.prems, of C c cs]
  obtain s1 m where s1: "m \<le> 2" "exec C m (s, [Calls (c # cs)]) = (s1, [Calls cs])"
    "inErrorState s1" "\<not> inProcessPendingEvents s1" "machineCalls s1 = machineCalls s"
    "pendingEvents s1 = pendingEvents s @ submitted [c]"
    by blast
  from Cons.IH [OF s1(3,4)]
  obtain s' where s': "exec C (2 * length cs + 1) (s1, [Calls cs]) = (s', [])"
    "inErrorState s'" "machineCalls s' = machineCalls s1"
    "pendingEvents s' = pendingEvents s1 @ submitted cs"
    by blast
  have "2 * length (c # cs) + 1 = m + ((2 * length cs + 1) + (2 - m))"
    using s1(1) by simp
  then have "exec C (2 * length (c # cs) + 1) (s, [Calls (c # cs)]) =
      exec C (2 - m) (exec C (2 * length cs + 1) (exec C m (s, [Calls (c # cs)])))"
    by (simp only: exec_add)
  moreover have "submitted (c # cs) = submitted [c] @ submitted cs"
    by (cases c) simp_all
  ultimately show ?case
    using s1 s' by (simp add: exec_ended)
qed

subsection \<open>The stack of a run\<close>

lemma shape_new: "shape (new_FizzBase st buf, [Calls p])"
  by (simp add: shape_def new_FizzBase_def)

lemma shape_idle: "\<not> inProcessPendingEvents s \<Longrightarrow> shape (s, [Calls p])"
  by (simp add: shape_def)

lemma shape_head: "inProcessPendingEvents s \<Longrightarrow> shape (s, [Drain, Calls p])"
  by (simp add: shape_def)

lemma shape_dispatch: "inProcessPendingEvents s \<Longrightarrow> shape (s, [Dispatch as, Drain, Calls p])"
  by (simp add: shape_def)

lemma shape_callback:
  "inProcessPendingEvents s \<Longrightarrow> shape (s, [Calls cs, Dispatch as, Drain, Calls p])"
  by (simp add: shape_def)

lemma shape_cases:
  assumes "shape (s, k)"
  obtains
    (ended) "\<not> inProcessPendingEvents s" "k = []"
  | (idle) p where "\<not> inProcessPendingEvents s" "k = [Calls p]"
  | (head) p where "inProcessPendingEvents s" "k = [Drain, Calls p]"
  | (dispatch) as p where "inProcessPendingEvents s" "k = [Dispatch as, Drain, Calls p]"
  | (callback) cs as p where "inProcessPendingEvents s" "k = [Calls cs, Dispatch as, Drain, Calls p]"
  using assms unfolding shape_def by fastforce

lemma shape_invoke:
  assumes "shape (s, Calls (c # cs) # k)"
  shows "shape (invoke c (s, Calls cs # k))"
  using assms
proof (cases rule: shape_cases)
  case (idle p)
  then show ?thesis
    by (cases c) (simp_all add: fizz_defs shape_idle shape_head)
next
  case (callback cs' as p)
  then show ?thesis
    by (cases c) (simp_all add: fizz_defs shape_callback)
qed simp_all

lemma nextUnit_flag:
  "nextUnit C s = Some (u, s1) \<Longrightarrow> inProcessPendingEvents s1 = inProcessPendingEvents s"
  by (auto simp: nextUnit_def split: list.splits if_splits prod.splits)

lemma leaveDrain_flag: "\<not> inProcessPendingEvents (leaveDrain s)"
  by (simp add: leaveDrain_def Let_def)

lemma moveToErrorState_flag:
  "inProcessPendingEvents (moveToErrorState s) = inProcessPendingEvents s"
  by (simp add: moveToErrorState_def)

lemma drainStep_cases:
  obtains
    (leave) s' where "drainStep C s k = (s', k)" "\<not> inProcessPendingEvents s'"
  | (again) s' where "drainStep C s k = (s', Drain # k)"
      "inProcessPendingEvents s' = inProcessPendingEvents s"
  | (dispatch) s' as where "drainStep C s k = (s', Dispatch as # Drain # k)"
      "inProcessPendingEvents s' = inProcessPendingEvents s"
proof (cases "inErrorState s")
  case True
  then show ?thesis
    using leave [of "leaveDrain s"] by (simp add: drainStep_def leaveDrain_flag)
next
  case False
  show ?thesis
  proof (cases "nextUnit C s")
    case None
    with False show ?thesis
      using leave [of "leaveDrain s"] by (simp add: drainStep_def leaveDrain_flag)
  next
    case (Some us)
    obtain u s1 where us: "us = (u, s1)" by (cases us)
    define s2 where "s2 = s1\<lparr>actionGuard := True, machineCalls := machineCalls s1 @ [u]\<rparr>"
    have f2: "inProcessPendingEvents s2 = inProcessPendingEvents s"
      using nextUnit_flag Some us by (simp add: s2_def)
    show ?thesis
    proof (cases "process C (state s2) u")
      case None
      with False Some us show ?thesis
        using leave [of "leaveDrain (moveToErrorState s2)"]
        by (simp add: drainStep_def s2_def leaveDrain_flag)
    next
      case (Some r)
      obtain acts completes where r: "r = (acts, completes)" by (cases r)
      define s3 where "s3 = s2\<lparr>aggregate := aggregate s2 @ acts, produced := produced s2 @ acts\<rparr>"
      have f3: "inProcessPendingEvents s3 = inProcessPendingEvents s"
        using f2 by (simp add: s3_def)
      show ?thesis
      proof (cases completes)
        case True
        with False \<open>nextUnit C s = Some us\<close> us Some r show ?thesis
          using dispatch [of "s3\<lparr>aggregate := []\<rparr>" "aggregate s3"] f3
          by (simp add: drainStep_def s2_def s3_def)
      next
        case False
        with \<open>\<not> inErrorState s\<close> \<open>nextUnit C s = Some us\<close> us Some r show ?thesis
          using again [of s3] f3
          by (simp add: drainStep_def s2_def s3_def)
      qed
    qed
  qed
qed

lemma shape_drainStep:
  assumes "shape (s, Drain # k)"
  shows "shape (drainStep C s k)"
  using assms
proof (cases rule: shape_cases)
  case (head p)
  show ?thesis
  proof (cases rule: drainStep_cases [of C s k])
    case (leave s')
    with head show ?thesis by (simp add: shape_idle)
  next
    case (again s')
    with head show ?thesis by (simp add: shape_head)
  next
    case (dispatch s' as)
    with head show ?thesis by (simp add: shape_dispatch)
  qed
qed simp_all

lemma shape_step:
  assumes "shape cfg" "step C cfg = Some cfg'"
  shows "shape cfg'"
proof -
  obtain s k where cfg: "cfg = (s, k)" by (cases cfg)
  show ?thesis
  proof (cases k)
    case Nil
    with assms cfg show ?thesis by simp
  next
    case (Cons f k0)
    show ?thesis
    proof (cases f)
      case (Calls cs)
      show ?thesis
      proof (cases cs)
        case Nil
        with Calls Cons assms cfg show ?thesis
          by (auto elim!: shape_cases simp: shape_dispatch shape_def)
      next
        case (Cons c cs')
        with Calls \<open>k = f # k0\<close> assms cfg show ?thesis
          using shape_invoke [of s c cs' k0] by simp
      qed
    next
      case Drain
      with Cons assms cfg show ?thesis
        using shape_drainStep [of s k0 C] by simp
    next
      case (Dispatch as)
      with Cons assms cfg show ?thesis
        by (cases as)
           (auto elim!: shape_cases simp: shape_head shape_callback split: prod.splits)
    qed
  qed
qed

lemma shape_exec: "shape cfg \<Longrightarrow> shape (exec C n cfg)"
proof (induction n arbitrary: cfg)
  case 0
  then show ?case by simp
next
  case (Suc n)
  then show ?case
    by (cases "step C cfg") (auto dest: shape_step)
qed

lemma shape_passes:
  "shape (s, k) \<Longrightarrow> passes k = (if inProcessPendingEvents s then 1 else 0)"
  by (auto simp: shape_def)

lemma submit_while_draining:
  "inProcessPendingEvents s \<Longrightarrow>
     submit e (s, k) =
       (s\<lparr>pendingEvents := pendingEvents s @ [e], accepted := accepted s @ [Event e]\<rparr>, k)"
  by (simp add: submit_def processPendingEvents_def)

subsection \<open>The order of processing\<close>











subsection \<open>Runs of the echoing state machine\<close>

text \<open>
  A run with a numeral of steps unfolds one step at a time, also where the
  collaborators are not fixed.
\<close>

lemma exec_numeral:
  "exec C (numeral n) cfg =
     (case step C cfg of None \<Rightarrow> cfg | Some cfg' \<Rightarrow> exec C (pred_numeral n) cfg')"
  by (simp add: numeral_eq_Suc)



text \<open>
  Two runs under an arbitrary priority \<open>p\<close>. In the first the visitor submits a write
  and then the chunk arrives; in the second the chunk arrives and then the visitor
  submits the write. When the loop takes its next turn, the queue and the read buffer
  are the same in both runs, so the priority answers the same, and the order of
  processing is the same, while the order of acceptance differs.
\<close>

lemma event_then_arrival:
  "accepted (fst (exec (preferring p (echo (Event (AppWrite [1]))
        [Call_appWrite [2], Transport_appends [9], Call_newTransportData])) 30
      (new_FizzBase () [], [Calls [Call_appWrite [1]]]))) =
     [Event (AppWrite [1]), Event (AppWrite [2]), TransportData [9]]
   \<and> dispatched (fst (exec (preferring p (echo (Event (AppWrite [1]))
        [Call_appWrite [2], Transport_appends [9], Call_newTransportData])) 30
      (new_FizzBase () [], [Calls [Call_appWrite [1]]]))) =
     (if p [AppWrite [2]] [[9]]
      then [Event (AppWrite [1]), Event (AppWrite [2]), TransportData [9]]
      else [Event (AppWrite [1]), TransportData [9], Event (AppWrite [2])])"
  by (simp add: exec_numeral preferring_def echo_def new_FizzBase_def fizz_defs)

lemma arrival_then_event:
  "accepted (fst (exec (preferring p (echo (Event (AppWrite [1]))
        [Transport_appends [9], Call_newTransportData, Call_appWrite [2]])) 30
      (new_FizzBase () [], [Calls [Call_appWrite [1]]]))) =
     [Event (AppWrite [1]), TransportData [9], Event (AppWrite [2])]
   \<and> dispatched (fst (exec (preferring p (echo (Event (AppWrite [1]))
        [Transport_appends [9], Call_newTransportData, Call_appWrite [2]])) 30
      (new_FizzBase () [], [Calls [Call_appWrite [1]]]))) =
     (if p [AppWrite [2]] [[9]]
      then [Event (AppWrite [1]), Event (AppWrite [2]), TransportData [9]]
      else [Event (AppWrite [1]), TransportData [9], Event (AppWrite [2])])"
  by (simp add: exec_numeral preferring_def echo_def new_FizzBase_def fizz_defs)

lemma no_priority_keeps_the_order_of_acceptance:
  "dispatched (fst (exec (preferring p (echo (Event (AppWrite [1]))
        [Call_appWrite [2], Transport_appends [9], Call_newTransportData])) 30
      (new_FizzBase () [], [Calls [Call_appWrite [1]]]))) \<noteq>
   accepted (fst (exec (preferring p (echo (Event (AppWrite [1]))
        [Call_appWrite [2], Transport_appends [9], Call_newTransportData])) 30
      (new_FizzBase () [], [Calls [Call_appWrite [1]]])))
   \<or> dispatched (fst (exec (preferring p (echo (Event (AppWrite [1]))
        [Transport_appends [9], Call_newTransportData, Call_appWrite [2]])) 30
      (new_FizzBase () [], [Calls [Call_appWrite [1]]]))) \<noteq>
   accepted (fst (exec (preferring p (echo (Event (AppWrite [1]))
        [Transport_appends [9], Call_newTransportData, Call_appWrite [2]])) 30
      (new_FizzBase () [], [Calls [Call_appWrite [1]]])))"
  by (simp only: event_then_arrival arrival_then_event) simp

subsection \<open>The choice of the loop and two writes from a callback\<close>




subsection \<open>Waiting for data\<close>

lemma suspended_new: "suspended buf (new_FizzBase st buf)"
  by (simp add: suspended_def new_FizzBase_def)

lemma suspended_invoke:
  "suspended buf s \<Longrightarrow> invoke c (s, k) = (s', k') \<Longrightarrow> suspended buf s'"
  by (cases c) (auto simp: suspended_def fizz_defs split: if_splits)

lemma suspended_drainStep:
  "suspended buf s \<Longrightarrow> drainStep C s k = (s', k') \<Longrightarrow> suspended buf s'"
  by (auto simp: suspended_def drainStep_def leaveDrain_def moveToErrorState_def nextUnit_def
      Let_def chunks_of_append split: if_splits list.splits option.splits prod.splits)

lemma suspended_step:
  assumes "suspended buf s" "step C (s, k) = Some (s', k')"
  shows "suspended buf s'"
proof (cases k)
  case Nil
  with assms show ?thesis by simp
next
  case (Cons f k0)
  show ?thesis
  proof (cases f)
    case (Calls cs)
    with Cons assms show ?thesis
      by (cases cs) (auto dest: suspended_invoke)
  next
    case Drain
    with Cons assms show ?thesis
      by (auto dest: suspended_drainStep)
  next
    case (Dispatch as)
    with Cons assms show ?thesis
      by (cases as) (auto simp: suspended_def split: prod.splits)
  qed
qed

lemma suspended_exec:
  "suspended buf s \<Longrightarrow> suspended buf (fst (exec C n (s, k)))"
proof (induction n arbitrary: s k)
  case 0
  then show ?case by simp
next
  case (Suc n)
  show ?case
  proof (cases "step C (s, k)")
    case None
    with Suc.prems show ?thesis by simp
  next
    case (Some cfg)
    obtain s' k' where cfg: "cfg = (s', k')" by (cases cfg)
    have "suspended buf s'" using suspended_step Suc.prems Some cfg by blast
    then have "suspended buf (fst (exec C n (s', k')))" by (rule Suc.IH)
    with Some cfg show ?thesis by simp
  qed
qed

lemma first_resume:
  "machineCalls (fst (exec C 2 (new_FizzBase st (b # bs), [Calls (Call_newTransportData # prog)]))) =
     [TransportData b]"
  by (simp add: eval_nat_numeral new_FizzBase_def fizz_defs Let_def
      split: option.splits prod.splits)

lemma quiet_run:
  "resumptions (fst (exec (echo (Event (AppWrite [1])) []) 20
             (new_FizzBase () [[9]], [Calls [Call_appWrite [1]]]))) = 0
   \<and> machineCalls (fst (exec (echo (Event (AppWrite [1])) []) 20
             (new_FizzBase () [[9]], [Calls [Call_appWrite [1]]]))) =
       [Event (AppWrite [1])]
   \<and> transportReadBuf (fst (exec (echo (Event (AppWrite [1])) []) 20
             (new_FizzBase () [[9]], [Calls [Call_appWrite [1]]]))) =
       [[9]]"
  by code_simp

subsection \<open>The claims\<close>

text \<open>
  Claim C6. Once \<^verbatim>\<open>moveToErrorState\<close> has been called, whatever the stack still
  holds (the rest of a dispatch in flight, the calls the owner makes later) and however
  many steps are taken: the error state holds, the state machine is handed no further
  unit, and the queue only grows, by exactly the events submitted afterwards. Whatever
  calls the owner then makes all return, and leave their events in the queue.
\<close>

theorem error_state_is_permanent:
  "inErrorState (moveToErrorState s)
   \<and> machineCalls (moveToErrorState s) = machineCalls s
   \<and> inErrorState (fst (exec C n (moveToErrorState s, k)))
   \<and> machineCalls (fst (exec C n (moveToErrorState s, k))) = machineCalls s
   \<and> (\<exists>es. pendingEvents (fst (exec C n (moveToErrorState s, k))) =
              pendingEvents (moveToErrorState s) @ es
          \<and> events_of (accepted (fst (exec C n (moveToErrorState s, k)))) =
              events_of (accepted s) @ es)
   \<and> (\<not> inProcessPendingEvents s \<longrightarrow>
        (\<exists>s'. exec C (2 * length cs + 1) (moveToErrorState s, [Calls cs]) = (s', [])
           \<and> inErrorState s' \<and> machineCalls s' = machineCalls s
           \<and> pendingEvents s' = pendingEvents (moveToErrorState s) @ submitted cs))"
proof -
  have e: "inErrorState (moveToErrorState s)"
    and m: "machineCalls (moveToErrorState s) = machineCalls s"
    and a: "accepted (moveToErrorState s) = accepted s"
    and f: "inProcessPendingEvents (moveToErrorState s) = inProcessPendingEvents s"
    by (simp_all add: moveToErrorState_def)
  have "\<not> inProcessPendingEvents s \<Longrightarrow>
      \<exists>s'. exec C (2 * length cs + 1) (moveToErrorState s, [Calls cs]) = (s', [])
        \<and> inErrorState s' \<and> machineCalls s' = machineCalls s
        \<and> pendingEvents s' = pendingEvents (moveToErrorState s) @ submitted cs"
    using error_run_returns [OF e, of C cs] f m by simp
  with frozen_exec [OF e, of C n k] show ?thesis
    using e m a by (simp add: frozen_def)
qed

theorem error_state_is_permanent_witness:
  "\<not> inProcessPendingEvents (new_FizzBase () [[9]] :: (unit, unit_of_work) FizzBase)
   \<and> snd (exec (echo (Event AppClose) []) 7
           (moveToErrorState (new_FizzBase () [[9]]),
            [Calls [Call_appWrite [1], Call_newTransportData, Call_appClose]])) = []
   \<and> pendingEvents (fst (exec (echo (Event AppClose) []) 7
           (moveToErrorState (new_FizzBase () [[9]]),
            [Calls [Call_appWrite [1], Call_newTransportData, Call_appClose]]))) =
       [AppWrite [1], AppClose]
   \<and> machineCalls (fst (exec (echo (Event AppClose) []) 7
           (moveToErrorState (new_FizzBase () [[9]]),
            [Calls [Call_appWrite [1], Call_newTransportData, Call_appClose]]))) = []"
proof -
  have idle: "\<not> inProcessPendingEvents (new_FizzBase () [[9]] :: (unit, unit_of_work) FizzBase)"
    and none: "machineCalls (new_FizzBase () [[9]] :: (unit, unit_of_work) FizzBase) = []"
    and empty: "pendingEvents
        (moveToErrorState (new_FizzBase () [[9]] :: (unit, unit_of_work) FizzBase)) = []"
    by (simp_all add: new_FizzBase_def moveToErrorState_def)
  from error_state_is_permanent
         [of "new_FizzBase () [[9]]" "echo (Event AppClose) []" 0 "[]"
             "[Call_appWrite [1], Call_newTransportData, Call_appClose]"]
  show ?thesis
    using idle none empty by auto
qed

text \<open>
  Claim C7. A processing pass is an activation of the drain loop: it hands units to the
  state machine and dispatches their actions. In every run from a fresh object at most
  one activation is on the stack, and one is exactly when \<open>inProcessPendingEvents\<close> is
  set; the flag is set whenever a visitor callback runs; and a submit made while the flag
  is set is one step that only enqueues the event and activates nothing.
\<close>

theorem at_most_one_processing_pass:
  "passes (snd (exec C n (new_FizzBase st buf, [Calls prog]))) \<le> 1
   \<and> passes (snd (exec C n (new_FizzBase st buf, [Calls prog]))) =
       (if inProcessPendingEvents (fst (exec C n (new_FizzBase st buf, [Calls prog]))) then 1 else 0)
   \<and> (\<forall>cs as k. snd (exec C n (new_FizzBase st buf, [Calls prog])) = Calls cs # Dispatch as # k \<longrightarrow>
        inProcessPendingEvents (fst (exec C n (new_FizzBase st buf, [Calls prog]))))
   \<and> (inProcessPendingEvents s \<longrightarrow>
        step C (s, Calls (Call_appWrite w # cs) # k) =
          Some (s\<lparr>pendingEvents := pendingEvents s @ [AppWrite w],
                   accepted := accepted s @ [Event (AppWrite w)]\<rparr>, Calls cs # k)
        \<and> step C (s, Calls (Call_earlyAppWrite w # cs) # k) =
          Some (s\<lparr>pendingEvents := pendingEvents s @ [EarlyAppWrite w],
                   accepted := accepted s @ [Event (EarlyAppWrite w)]\<rparr>, Calls cs # k)
        \<and> step C (s, Calls (Call_appClose # cs) # k) =
          Some (s\<lparr>pendingEvents := pendingEvents s @ [AppClose],
                   accepted := accepted s @ [Event AppClose]\<rparr>, Calls cs # k)
        \<and> step C (s, Calls (Call_writeNewSessionTicket w # cs) # k) =
          Some (s\<lparr>pendingEvents := pendingEvents s @ [WriteNewSessionTicket w],
                   accepted := accepted s @ [Event (WriteNewSessionTicket w)]\<rparr>, Calls cs # k))"
proof -
  obtain s' k' where e: "exec C n (new_FizzBase st buf, [Calls prog]) = (s', k')"
    by (cases "exec C n (new_FizzBase st buf, [Calls prog])")
  have sh: "shape (s', k')"
    using shape_exec [OF shape_new, of C n st buf prog] e by simp
  then have "passes k' = (if inProcessPendingEvents s' then 1 else 0)"
    by (rule shape_passes)
  moreover have "\<forall>cs as k. k' = Calls cs # Dispatch as # k \<longrightarrow> inProcessPendingEvents s'"
    using sh by (auto elim!: shape_cases)
  ultimately show ?thesis
    using e by (simp add: submit_while_draining)
qed

theorem at_most_one_processing_pass_witness:
  "inProcessPendingEvents
     (fst (exec (echo (Event (AppWrite [1])) [Call_appWrite [2]]) 3
             (new_FizzBase () [], [Calls [Call_appWrite [1]]])))
   \<and> snd (exec (echo (Event (AppWrite [1])) [Call_appWrite [2]]) 3
             (new_FizzBase () [], [Calls [Call_appWrite [1]]])) =
       [Calls [Call_appWrite [2]], Dispatch [], Drain, Calls []]
   \<and> passes (snd (exec (echo (Event (AppWrite [1])) [Call_appWrite [2]]) 3
                (new_FizzBase () [], [Calls [Call_appWrite [1]]]))) = 1
   \<and> (\<exists>s'. step (echo (Event (AppWrite [1])) [Call_appWrite [2]])
               (fst (exec (echo (Event (AppWrite [1])) [Call_appWrite [2]]) 3
                      (new_FizzBase () [], [Calls [Call_appWrite [1]]])),
                [Calls [Call_appWrite [2]], Dispatch [], Drain, Calls []]) =
             Some (s', [Calls [], Dispatch [], Drain, Calls []])
           \<and> pendingEvents s' = [AppWrite [2]])"
proof -
  have run:
    "inProcessPendingEvents
       (fst (exec (echo (Event (AppWrite [1])) [Call_appWrite [2]]) 3
             (new_FizzBase () [], [Calls [Call_appWrite [1]]])))
     \<and> snd (exec (echo (Event (AppWrite [1])) [Call_appWrite [2]]) 3
             (new_FizzBase () [], [Calls [Call_appWrite [1]]])) =
         [Calls [Call_appWrite [2]], Dispatch [], Drain, Calls []]
     \<and> pendingEvents
         (fst (exec (echo (Event (AppWrite [1])) [Call_appWrite [2]]) 3
             (new_FizzBase () [], [Calls [Call_appWrite [1]]]))) = []"
    by code_simp
  from at_most_one_processing_pass
         [of "echo (Event (AppWrite [1])) [Call_appWrite [2]]" 3 "()" "[]" "[Call_appWrite [1]]"
             "fst (exec (echo (Event (AppWrite [1])) [Call_appWrite [2]]) 3
                    (new_FizzBase () [], [Calls [Call_appWrite [1]]]))"
             "[2]" "[]" "[Dispatch [], Drain, Calls []]"]
  show ?thesis
    using run by simp
qed




text \<open>
  Claim C9. A fresh object waits for data. As long as \<^verbatim>\<open>newTransportData\<close> has not
  been called, whatever else the owner and the visitor do, it still waits, no chunk has
  been handed to the state machine, and the read buffer holds the bytes it held at
  construction followed by what has arrived since. The first call of
  \<^verbatim>\<open>newTransportData\<close> hands the first chunk to the state machine.
\<close>

theorem no_transport_data_is_consumed_before_newTransportData:
  "waitForData (new_FizzBase st buf)
   \<and> (resumptions (fst (exec C n (new_FizzBase st buf, [Calls prog]))) = 0 \<longrightarrow>
        waitForData (fst (exec C n (new_FizzBase st buf, [Calls prog])))
        \<and> chunks_of (machineCalls (fst (exec C n (new_FizzBase st buf, [Calls prog])))) = []
        \<and> transportReadBuf (fst (exec C n (new_FizzBase st buf, [Calls prog]))) =
            buf @ arrived (fst (exec C n (new_FizzBase st buf, [Calls prog]))))
   \<and> machineCalls (fst (exec C 2 (new_FizzBase st (b # bs),
                                   [Calls (Call_newTransportData # prog)]))) =
       [TransportData b]"
proof -
  have w: "waitForData (new_FizzBase st buf)"
    by (simp add: new_FizzBase_def)
  have "suspended buf (fst (exec C n (new_FizzBase st buf, [Calls prog])))"
    using suspended_new by (rule suspended_exec)
  then show ?thesis
    using w first_resume [of C st b bs prog] by (auto simp: suspended_def)
qed

theorem no_transport_data_is_consumed_before_newTransportData_witness:
  "resumptions (fst (exec (echo (Event (AppWrite [1])) []) 20
             (new_FizzBase () [[9]], [Calls [Call_appWrite [1]]]))) = 0
   \<and> machineCalls (fst (exec (echo (Event (AppWrite [1])) []) 20
             (new_FizzBase () [[9]], [Calls [Call_appWrite [1]]]))) =
       [Event (AppWrite [1])]
   \<and> waitForData (fst (exec (echo (Event (AppWrite [1])) []) 20
             (new_FizzBase () [[9]], [Calls [Call_appWrite [1]]])))
   \<and> transportReadBuf (fst (exec (echo (Event (AppWrite [1])) []) 20
             (new_FizzBase () [[9]], [Calls [Call_appWrite [1]]]))) =
       [[9]] @ arrived (fst (exec (echo (Event (AppWrite [1])) []) 20
             (new_FizzBase () [[9]], [Calls [Call_appWrite [1]]])))"
  using no_transport_data_is_consumed_before_newTransportData
          [of "()" "[[9]]" "echo (Event (AppWrite [1])) []" 20 "[Call_appWrite [1]]"]
    quiet_run
  by auto

end
